theory Spec2Isabelle
  imports Main "HOL-Library.Word"
begin

section \<open>MiniTest: the failure and predicate-context bookkeeping of TestResult\<close>

text \<open>
  A shallow embedding of \<^verbatim>\<open>src/MiniTest.h\<close> and \<^verbatim>\<open>src/MiniTest.cpp\<close>.

  \<^item> \<^verbatim>\<open>unsigned int\<close> (ids, lines, nesting levels) is a 32-bit word: \<open>+\<close> wraps and
    \<open><\<close> is the unsigned comparison.
  \<^item> A \<^verbatim>\<open>const char*\<close> that may be null is a \<open>string option\<close>; a \<^verbatim>\<open>std::string\<close> is a
    \<open>string\<close>.
  \<^item> \<^verbatim>\<open>failures_\<close> is a \<^verbatim>\<open>std::deque<Failure>\<close> that only ever grows at the back, and a
    deque keeps the addresses of its elements under \<^verbatim>\<open>push_back\<close>. A \<^verbatim>\<open>Failure*\<close> is
    therefore the position of the record in the sequence (\<open>None\<close> for \<^verbatim>\<open>nullptr\<close>).
    Following a pointer that names no record of the sequence is undefined in the source;
    the model returns \<open>None\<close> there (no state reached from a fresh TestResult has such a
    pointer: lemma \<open>well_formed_run\<close>).
  \<^item> The predicate chain is the null-terminated list hanging off \<^verbatim>\<open>rootPredicateNode_\<close>:
    the model keeps the sequence of nodes reached from the root through \<^verbatim>\<open>next_\<close>
    (the root itself is never read). A \<^verbatim>\<open>PredicateContext*\<close> into the chain is the number
    of \<^verbatim>\<open>next_\<close> hops from the root: 0 is the root, \<open>k\<close> the \<open>k\<close>-th frame.
  \<^item> Field names drop the trailing underscore of the source and carry a letter for
    their class: \<open>_f\<close> (Failure), \<open>_p\<close> (PredicateContext), \<open>_r\<close> (TestResult),
    \<open>_c\<close> (TestCase), \<open>_n\<close> (Runner).
\<close>

subsection \<open>Data\<close>

type_synonym uint = "32 word"

record Failure =
  file_f :: "string option"
  line_f :: uint
  expr_f :: string
  message_f :: string
  nestingLevel_f :: uint

record PredicateContext =
  id_p :: uint
  file_p :: "string option"
  line_p :: uint
  expr_p :: "string option"
  failure_p :: "nat option"

record TestResult =
  predicateId_r :: uint
  predicateStackTail_r :: nat
  failures_r :: "Failure list"
  name_r :: string
  predicateChain_r :: "PredicateContext list"
  lastUsedPredicateId_r :: uint
  messageTarget_r :: "nat option"

text \<open>The constructor, with the in-class member initialisers of the header.\<close>

definition TestResult_new :: TestResult where
  "TestResult_new =
     \<lparr>predicateId_r = 1, predicateStackTail_r = 0, failures_r = [], name_r = [],
      predicateChain_r = [], lastUsedPredicateId_r = 0, messageTarget_r = None\<rparr>"

definition setTestName :: "string \<Rightarrow> TestResult \<Rightarrow> TestResult" where
  "setTestName name s = s\<lparr>name_r := name\<rparr>"

subsection \<open>Recording a failure\<close>

definition addFailureInfo ::
  "string option \<Rightarrow> uint \<Rightarrow> string option \<Rightarrow> uint \<Rightarrow> TestResult \<Rightarrow> TestResult" where
  "addFailureInfo file line expr nestingLevel s =
     (let failure = \<lparr>file_f = file, line_f = line,
                      expr_f = (case expr of Some e \<Rightarrow> e | None \<Rightarrow> []),
                      message_f = [], nestingLevel_f = nestingLevel\<rparr>
      in s\<lparr>failures_r := failures_r s @ [failure]\<rparr>)"

text \<open>
  The walk of \<^verbatim>\<open>addFailure\<close> over the chain. The argument list holds the nodes from
  \<^verbatim>\<open>lastNode\<close> on; the result gives them back (with \<^verbatim>\<open>failure_\<close> set where a record was
  made), the nesting level after the walk and the updated TestResult.
\<close>

fun addFailure_walk ::
  "PredicateContext list \<Rightarrow> uint \<Rightarrow> TestResult \<Rightarrow> PredicateContext list \<times> uint \<times> TestResult" where
  "addFailure_walk [] nestingLevel s = ([], nestingLevel, s)"
| "addFailure_walk (lastNode # rest) nestingLevel s =
     (if lastUsedPredicateId_r s < id_p lastNode then
        (let s1 = s\<lparr>lastUsedPredicateId_r := id_p lastNode\<rparr>;
             s2 = addFailureInfo (file_p lastNode) (line_p lastNode) (expr_p lastNode) nestingLevel s1;
             lastNode' = lastNode\<lparr>failure_p := Some (length (failures_r s2) - 1)\<rparr>;
             (rest', nestingLevel', s3) = addFailure_walk rest (nestingLevel + 1) s2
         in (lastNode' # rest', nestingLevel', s3))
      else
        (let (rest', nestingLevel', s3) = addFailure_walk rest (nestingLevel + 1) s
         in (lastNode # rest', nestingLevel', s3)))"

definition addFailure :: "string option \<Rightarrow> uint \<Rightarrow> string option \<Rightarrow> TestResult \<Rightarrow> TestResult" where
  "addFailure file line expr s =
     (let (chain', nestingLevel, s1) = addFailure_walk (predicateChain_r s) 0 s;
          s2 = s1\<lparr>predicateChain_r := chain'\<rparr>;
          s3 = addFailureInfo file line expr nestingLevel s2
      in s3\<lparr>messageTarget_r := Some (length (failures_r s3) - 1)\<rparr>)"

subsection \<open>The predicate stack\<close>

text \<open>
  The loop of \<^verbatim>\<open>popPredicateContext\<close>: the list holds the successors of \<^verbatim>\<open>lastNode\<close>,
  the number is the position of \<^verbatim>\<open>lastNode\<close>. It advances while there are two
  successors or more.
\<close>

fun pop_walk :: "PredicateContext list \<Rightarrow> nat \<Rightarrow> nat" where
  "pop_walk (a # b # rest) lastNode = pop_walk (b # rest) (lastNode + 1)"
| "pop_walk _ lastNode = lastNode"

definition popPredicateContext :: "TestResult \<Rightarrow> TestResult" where
  "popPredicateContext s =
     (let lastNode = pop_walk (predicateChain_r s) 0;
          tail = (case drop lastNode (predicateChain_r s) of [] \<Rightarrow> None | t # _ \<Rightarrow> Some t);
          s1 = (case tail of
                  None \<Rightarrow> s
                | Some t \<Rightarrow> (case failure_p t of
                               None \<Rightarrow> s
                             | Some fl \<Rightarrow> s\<lparr>messageTarget_r := Some fl\<rparr>))
      in s1\<lparr>predicateStackTail_r := lastNode,
            predicateChain_r := take lastNode (predicateChain_r s)\<rparr>)"

text \<open>
  The entry half of the macro \<^verbatim>\<open>JSONTEST_ASSERT_PRED\<close>: a fresh frame with the current
  \<^verbatim>\<open>predicateId_\<close> is linked behind the node \<^verbatim>\<open>predicateStackTail_\<close> points at, the
  counter is incremented and the frame becomes the tail.
\<close>

definition pushPredicateContext :: "string option \<Rightarrow> uint \<Rightarrow> string option \<Rightarrow> TestResult \<Rightarrow> TestResult" where
  "pushPredicateContext file line expr s =
     (let ctx = \<lparr>id_p = predicateId_r s, file_p = file, line_p = line, expr_p = expr,
                  failure_p = None\<rparr>;
          chain' = take (predicateStackTail_r s) (predicateChain_r s) @ [ctx]
      in s\<lparr>predicateChain_r := chain',
            predicateId_r := predicateId_r s + 1,
            predicateStackTail_r := length chain'\<rparr>)"

definition failed :: "TestResult \<Rightarrow> bool" where
  "failed s = (failures_r s \<noteq> [])"

subsection \<open>Appending diagnostic text\<close>

definition addToLastFailure :: "string \<Rightarrow> TestResult \<Rightarrow> TestResult option" where
  "addToLastFailure message s =
     (case messageTarget_r s of
        None \<Rightarrow> Some s
      | Some t \<Rightarrow>
          (if t < length (failures_r s) then
             Some (s\<lparr>failures_r := (failures_r s)
                       [t := (failures_r s ! t)\<lparr>message_f := message_f (failures_r s ! t) @ message\<rparr>]\<rparr>)
           else None))"

text \<open>
  \<^verbatim>\<open>std::to_string\<close> of a 64-bit integer: the decimal digits, with a minus sign for a
  negative \<^verbatim>\<open>int64_t\<close>.
\<close>

definition digit_char :: "nat \<Rightarrow> char" where
  "digit_char d = ''0123456789'' ! d"

fun decimal :: "nat \<Rightarrow> string" where
  "decimal n = (if n < 10 then [digit_char n]
                else decimal (n div 10) @ [digit_char (n mod 10)])"

declare decimal.simps [simp del]

definition to_string_int64 :: "64 word \<Rightarrow> string" where
  "to_string_int64 v =
     (if sint v < 0 then CHR ''-'' # decimal (nat (- sint v)) else decimal (nat (sint v)))"

definition to_string_uint64 :: "64 word \<Rightarrow> string" where
  "to_string_uint64 v = decimal (unat v)"

definition shl_int64 :: "64 word \<Rightarrow> TestResult \<Rightarrow> TestResult option" where
  "shl_int64 v s = addToLastFailure (to_string_int64 v) s"

definition shl_uint64 :: "64 word \<Rightarrow> TestResult \<Rightarrow> TestResult option" where
  "shl_uint64 v s = addToLastFailure (to_string_uint64 v) s"

definition shl_bool :: "bool \<Rightarrow> TestResult \<Rightarrow> TestResult option" where
  "shl_bool v s = addToLastFailure (if v then ''true'' else ''false'') s"

text \<open>
  The generic \<^verbatim>\<open>operator<<\<close> of the header writes the value to a fresh
  \<^verbatim>\<open>std::stringstream\<close> after \<^verbatim>\<open>std::setprecision(16)\<close> and \<^verbatim>\<open>std::hexfloat\<close>. The stream
  inserter of the value's type belongs to the C++ library, not to this repository: it is
  the parameter \<open>put\<close>, the text the stream writes for a value under a format state. Of
  the format state the model keeps the two fields the operator sets.
\<close>

datatype floatfield = defaultfloat | fixed | scientific | hexfloat

record fmtstate =
  precision :: nat
  floatfield :: floatfield

text \<open>A freshly constructed stream: precision 6, no floatfield flag.\<close>

definition fresh_stream :: fmtstate where
  "fresh_stream = \<lparr>precision = 6, floatfield = defaultfloat\<rparr>"

definition shl_generic :: "(fmtstate \<Rightarrow> 'a \<Rightarrow> string) \<Rightarrow> 'a \<Rightarrow> TestResult \<Rightarrow> TestResult option" where
  "shl_generic put v s =
     (let oss = fresh_stream\<lparr>precision := 16\<rparr>;
          oss = oss\<lparr>floatfield := hexfloat\<rparr>
      in addToLastFailure (put oss v) s)"

subsection \<open>Sequences of operations\<close>

text \<open>
  Everything a test body can do to its TestResult: the public member functions, the
  operators and the entry half of the predicate macro. A generic value is given by what
  the stream writes for it.
\<close>

datatype operation =
    SetTestName string
  | AddFailure "string option" uint "string option"
  | PushPredicateContext "string option" uint "string option"
  | PopPredicateContext
  | ShlBool bool
  | ShlInt64 "64 word"
  | ShlUInt64 "64 word"
  | ShlGeneric "fmtstate \<Rightarrow> string"

fun step :: "operation \<Rightarrow> TestResult \<Rightarrow> TestResult option" where
  "step (SetTestName n) s = Some (setTestName n s)"
| "step (AddFailure file line expr) s = Some (addFailure file line expr s)"
| "step (PushPredicateContext file line expr) s = Some (pushPredicateContext file line expr s)"
| "step PopPredicateContext s = Some (popPredicateContext s)"
| "step (ShlBool v) s = shl_bool v s"
| "step (ShlInt64 v) s = shl_int64 v s"
| "step (ShlUInt64 v) s = shl_uint64 v s"
| "step (ShlGeneric w) s = shl_generic (\<lambda>fmt _. w fmt) () s"

fun run :: "operation list \<Rightarrow> TestResult \<Rightarrow> TestResult option" where
  "run [] s = Some s"
| "run (x # xs) s = (case step x s of None \<Rightarrow> None | Some s' \<Rightarrow> run xs s')"

subsection \<open>Printing\<close>

text \<open>
  Standard output is the text written so far. \<^verbatim>\<open>printf("%s", x.c_str())\<close> writes a
  \<^verbatim>\<open>std::string\<close> up to its first NUL character; \<^verbatim>\<open>%u\<close> and \<^verbatim>\<open>%zu\<close> write decimal digits.
\<close>

definition c_str :: "string \<Rightarrow> string" where
  "c_str x = takeWhile (\<lambda>c. c \<noteq> CHR 0x00) x"

definition newline :: char where
  "newline = CHR 0x0A"

text \<open>\<^verbatim>\<open>text.find(c, pos)\<close>: the first position from \<open>pos\<close> on that holds \<open>c\<close>.\<close>

definition find_char :: "string \<Rightarrow> char \<Rightarrow> nat \<Rightarrow> nat option" where
  "find_char text c pos =
     (if c \<in> set (drop pos text)
      then Some (pos + length (takeWhile (\<lambda>x. x \<noteq> c) (drop pos text)))
      else None)"

lemma find_char_ge: "find_char text c pos = Some i \<Longrightarrow> pos \<le> i"
  by (auto simp: find_char_def split: if_splits)

function indentText_loop :: "string \<Rightarrow> string \<Rightarrow> nat \<Rightarrow> string \<Rightarrow> string" where
  "indentText_loop text indent lastIndex reindented =
     (if lastIndex < length text then
        (let nextIndex = (case find_char text newline lastIndex of
                            None \<Rightarrow> length text - 1
                          | Some i \<Rightarrow> i)
         in indentText_loop text indent (nextIndex + 1)
              (reindented @ indent @ take (nextIndex - lastIndex + 1) (drop lastIndex text)))
      else reindented)"
  by pat_completeness auto
termination
proof (relation "measure (\<lambda>(text, indent, lastIndex, reindented). length text - lastIndex)")
  show "wf (measure (\<lambda>(text, indent, lastIndex, reindented). length text - lastIndex))"
    by simp
next
  fix tx indent :: string and lastIndex :: nat and reindented :: string and nextIndex :: nat
  assume lt: "lastIndex < length tx"
    and nx: "nextIndex = (case find_char tx newline lastIndex of
                            None \<Rightarrow> length tx - 1 | Some i \<Rightarrow> i)"
  have "lastIndex \<le> nextIndex"
  proof (cases "find_char tx newline lastIndex")
    case None
    with lt nx show ?thesis by simp
  next
    case (Some i)
    with nx find_char_ge [OF Some] show ?thesis by simp
  qed
  with lt show "((tx, indent, nextIndex + 1, reindented @ indent @
                   take (nextIndex - lastIndex + 1) (drop lastIndex tx)),
                 (tx, indent, lastIndex, reindented))
                \<in> measure (\<lambda>(text, indent, lastIndex, reindented). length text - lastIndex)"
    by simp
qed

declare indentText_loop.simps [simp del]

definition indentText :: "string \<Rightarrow> string \<Rightarrow> string" where
  "indentText text indent = indentText_loop text indent 0 []"

text \<open>One round of the loop of \<^verbatim>\<open>printFailure\<close>: what it adds to the output.\<close>

definition printFailure_body :: "Failure \<Rightarrow> string \<Rightarrow> string" where
  "printFailure_body failure out =
     (let indent = replicate (unat (nestingLevel_f failure * 2)) CHR '' '';
          out1 = (case file_f failure of
                    Some file \<Rightarrow> out @ indent @ file @ ''('' @ decimal (unat (line_f failure)) @ ''): ''
                  | None \<Rightarrow> out);
          out2 = (if expr_f failure \<noteq> [] then out1 @ c_str (expr_f failure) @ [newline]
                  else if file_f failure \<noteq> None then out1 @ [newline]
                  else out1)
      in if message_f failure \<noteq> [] then
           (let reindented = indentText (message_f failure) (indent @ ''  '')
            in out2 @ c_str reindented @ [newline])
         else out2)"

fun printFailure_loop :: "Failure list \<Rightarrow> string \<Rightarrow> string" where
  "printFailure_loop [] out = out"
| "printFailure_loop (failure # rest) out = printFailure_loop rest (printFailure_body failure out)"

definition printFailure :: "bool \<Rightarrow> TestResult \<Rightarrow> string \<Rightarrow> string" where
  "printFailure printTestName s out =
     (if failures_r s = [] then out
      else
        (let out1 = (if printTestName
                     then out @ ''* Detail of '' @ c_str (name_r s) @ '' test failure:'' @ [newline]
                     else out)
         in printFailure_loop (failures_r s) out1))"

subsection \<open>Runner\<close>

text \<open>
  A test case is its name and its body. The body works on the TestResult it is bound to
  and may write to standard output: it gives the text it writes and the TestResult it
  leaves. It is taken to return (\<^verbatim>\<open>JSON_USE_EXCEPTION\<close> is not defined, so the runner
  catches nothing). A factory is modelled by the test case it makes.
\<close>

record TestCase =
  testName_c :: string
  runTestCase_c :: "TestResult \<Rightarrow> string \<times> TestResult"

record Runner =
  tests_n :: "TestCase list"

definition add :: "TestCase \<Rightarrow> Runner \<Rightarrow> Runner" where
  "add factory r = r\<lparr>tests_n := tests_n r @ [factory]\<rparr>"

definition testCount :: "Runner \<Rightarrow> nat" where
  "testCount r = length (tests_n r)"

text \<open>\<^verbatim>\<open>tests_[index]\<close> beyond the deque is undefined in the source: \<open>None\<close>.\<close>

definition runTestAt :: "Runner \<Rightarrow> nat \<Rightarrow> TestResult \<Rightarrow> string \<Rightarrow> (string \<times> TestResult) option" where
  "runTestAt r index result out =
     (if index < length (tests_n r) then
        (let test = tests_n r ! index;
             result1 = setTestName (testName_c test) result;
             out1 = out @ ''Testing '' @ testName_c test @ '': '';
             (written, result2) = runTestCase_c test result1;
             status = (if failed result2 then ''FAILED'' else ''OK'')
         in Some (out1 @ written @ status @ [newline], result2))
      else None)"

function runAllTest_loop ::
  "Runner \<Rightarrow> nat \<Rightarrow> nat \<Rightarrow> TestResult list \<Rightarrow> string \<Rightarrow> (string \<times> TestResult list) option" where
  "runAllTest_loop r count index failures out =
     (if index < count then
        (case runTestAt r index TestResult_new out of
           None \<Rightarrow> None
         | Some (out1, result) \<Rightarrow>
             runAllTest_loop r count (index + 1)
               (if failed result then failures @ [result] else failures) out1)
      else Some (out, failures))"
  by pat_completeness auto
termination
  by (relation "measure (\<lambda>(r, count, index, failures, out). count - index)") auto

declare runAllTest_loop.simps [simp del]

fun printFailures :: "bool \<Rightarrow> TestResult list \<Rightarrow> string \<Rightarrow> string" where
  "printFailures printTestName [] out = out"
| "printFailures printTestName (result # rest) out =
     printFailures printTestName rest (printFailure printTestName result out)"

definition runAllTest :: "bool \<Rightarrow> Runner \<Rightarrow> string \<Rightarrow> (string \<times> bool) option" where
  "runAllTest printSummary r out =
     (let count = testCount r in
      case runAllTest_loop r count 0 [] out of
        None \<Rightarrow> None
      | Some (out1, failures) \<Rightarrow>
          (if failures = [] then
             Some (if printSummary
                   then out1 @ ''All '' @ decimal count @ '' tests passed'' @ [newline]
                   else out1, True)
           else
             (let out2 = printFailures (1 < count) failures out1;
                  failedCount = length failures;
                  passedCount = count - failedCount
              in Some (if printSummary
                       then out2 @ decimal passedCount @ ''/'' @ decimal count @ '' tests passed (''
                              @ decimal failedCount @ '' failure(s))'' @ [newline]
                       else out2, False))))"

subsection \<open>Reference values for the statements\<close>


text \<open>
  Two predicate assertions, one inside the other, entered on a fresh TestResult; and the
  same with a failed assertion inside the inner one.
\<close>

definition nested_example :: TestResult where
  "nested_example =
     pushPredicateContext (Some ''t.cpp'') 20 (Some ''inner()'')
       (pushPredicateContext (Some ''t.cpp'') 10 (Some ''outer()'') TestResult_new)"

definition failed_example :: TestResult where
  "failed_example = addFailure (Some ''t.cpp'') 30 (Some ''x == y'') nested_example"

text \<open>A failed assertion recorded without a source file, inside one predicate assertion.\<close>

definition unlocated_example :: TestResult where
  "unlocated_example =
     addFailure None 0 (Some ''x'')
       (pushPredicateContext (Some ''t.cpp'') 10 (Some ''outer()'') TestResult_new)"

text \<open>
  The states in which every pointer names something: \<^verbatim>\<open>predicateStackTail_\<close> is the last
  node of the chain, and the message target and the records linked from frames are records
  of the sequence. A fresh TestResult is such a state and every operation keeps it so;
  on these states no operation is undefined.
\<close>

definition linked :: "nat \<Rightarrow> PredicateContext \<Rightarrow> bool" where
  "linked n c = (case failure_p c of None \<Rightarrow> True | Some a \<Rightarrow> a < n)"

definition well_formed :: "TestResult \<Rightarrow> bool" where
  "well_formed s =
     (predicateStackTail_r s = length (predicateChain_r s)
      \<and> (case messageTarget_r s of None \<Rightarrow> True | Some t \<Rightarrow> t < length (failures_r s))
      \<and> list_all (linked (length (failures_r s))) (predicateChain_r s))"

text \<open>The number a string of decimal digits stands for.\<close>

definition digits_value :: "string \<Rightarrow> nat" where
  "digits_value ds = foldl (\<lambda>a c. 10 * a + (of_char c - 48)) 0 ds"

text \<open>
  Modelled from the C++ library, which is not part of this repository: what the stream
  inserter of \<^verbatim>\<open>double\<close> writes for the value 1.5 under a format state. With
  \<^verbatim>\<open>std::hexfloat\<close> the value is written in hexadecimal floating-point notation
  whatever the precision; a fresh stream writes it in the default notation.
\<close>

definition put_three_halves :: "fmtstate \<Rightarrow> unit \<Rightarrow> string" where
  "put_three_halves fmt v =
     (case floatfield fmt of
        hexfloat \<Rightarrow> ''0x1.8p+0''
      | defaultfloat \<Rightarrow> (if precision fmt < 2 then ''2'' else ''1.5'')
      | fixed \<Rightarrow> (if precision fmt = 0 then ''2''
                  else ''1.5'' @ replicate (precision fmt - 1) CHR ''0'')
      | scientific \<Rightarrow> (if precision fmt = 0 then ''2e+00''
                       else ''1.5'' @ replicate (precision fmt - 1) CHR ''0'' @ ''e+00''))"





text \<open>
  The append operations among the operations, and the text each of them appends.
\<close>

fun is_shl :: "operation \<Rightarrow> bool" where
  "is_shl (ShlBool v) = True"
| "is_shl (ShlInt64 v) = True"
| "is_shl (ShlUInt64 v) = True"
| "is_shl (ShlGeneric w) = True"
| "is_shl _ = False"

fun shl_text :: "operation \<Rightarrow> string" where
  "shl_text (ShlBool v) = (if v then ''true'' else ''false'')"
| "shl_text (ShlInt64 v) = to_string_int64 v"
| "shl_text (ShlUInt64 v) = to_string_uint64 v"
| "shl_text (ShlGeneric w) = w \<lparr>precision = 16, floatfield = hexfloat\<rparr>"
| "shl_text _ = []"

text \<open>
  Modelled from the C++ library: the stream inserter of a string writes its characters,
  whatever the precision and the floatfield of the stream.
\<close>

definition put_string :: "fmtstate \<Rightarrow> string \<Rightarrow> string" where
  "put_string fmt v = v"

section \<open>Verification\<close>

subsection \<open>The example states, evaluated\<close>

lemma nested_example_eq:
  "nested_example =
     \<lparr>predicateId_r = 3, predicateStackTail_r = 2, failures_r = [], name_r = [],
      predicateChain_r =
        [\<lparr>id_p = 1, file_p = Some ''t.cpp'', line_p = 10, expr_p = Some ''outer()'', failure_p = None\<rparr>,
         \<lparr>id_p = 2, file_p = Some ''t.cpp'', line_p = 20, expr_p = Some ''inner()'', failure_p = None\<rparr>],
      lastUsedPredicateId_r = 0, messageTarget_r = None\<rparr>"
  by (simp add: nested_example_def pushPredicateContext_def TestResult_new_def)

lemma failed_example_eq:
  "failed_example =
     \<lparr>predicateId_r = 3, predicateStackTail_r = 2,
      failures_r =
        [\<lparr>file_f = Some ''t.cpp'', line_f = 10, expr_f = ''outer()'', message_f = [], nestingLevel_f = 0\<rparr>,
         \<lparr>file_f = Some ''t.cpp'', line_f = 20, expr_f = ''inner()'', message_f = [], nestingLevel_f = 1\<rparr>,
         \<lparr>file_f = Some ''t.cpp'', line_f = 30, expr_f = ''x == y'', message_f = [], nestingLevel_f = 2\<rparr>],
      name_r = [],
      predicateChain_r =
        [\<lparr>id_p = 1, file_p = Some ''t.cpp'', line_p = 10, expr_p = Some ''outer()'', failure_p = Some 0\<rparr>,
         \<lparr>id_p = 2, file_p = Some ''t.cpp'', line_p = 20, expr_p = Some ''inner()'', failure_p = Some 1\<rparr>],
      lastUsedPredicateId_r = 2, messageTarget_r = Some 2\<rparr>"
  by (simp add: failed_example_def nested_example_eq addFailure_def addFailureInfo_def)

subsection \<open>Recording failures\<close>





lemma addFailure_walk_ids:
  "addFailure_walk cs n s = (cs', n', s') \<Longrightarrow>
   map id_p cs' = map id_p cs \<and> lastUsedPredicateId_r s \<le> lastUsedPredicateId_r s'
   \<and> (\<forall>c \<in> set cs. id_p c \<le> lastUsedPredicateId_r s')
   \<and> (lastUsedPredicateId_r s' = lastUsedPredicateId_r s \<or> lastUsedPredicateId_r s' \<in> id_p ` set cs)
   \<and> predicateChain_r s' = predicateChain_r s \<and> messageTarget_r s' = messageTarget_r s
   \<and> predicateId_r s' = predicateId_r s \<and> predicateStackTail_r s' = predicateStackTail_r s
   \<and> name_r s' = name_r s
   \<and> length cs' = length cs"
proof (induction cs arbitrary: n s cs' n' s')
  case Nil
  then show ?case by simp
next
  case (Cons c cs)
  show ?case
  proof (cases "lastUsedPredicateId_r s < id_p c")
    case True
    let ?s2 = "addFailureInfo (file_p c) (line_p c) (expr_p c) n (s\<lparr>lastUsedPredicateId_r := id_p c\<rparr>)"
    obtain r m t where w: "addFailure_walk cs (n + 1) ?s2 = (r, m, t)"
      by (cases "addFailure_walk cs (n + 1) ?s2") auto
    from Cons.prems True w have eq: "cs' = c\<lparr>failure_p := Some (length (failures_r ?s2) - 1)\<rparr> # r" "s' = t"
      by (auto simp: Let_def)
    have s2: "lastUsedPredicateId_r ?s2 = id_p c" "predicateChain_r ?s2 = predicateChain_r s"
      "messageTarget_r ?s2 = messageTarget_r s" "predicateId_r ?s2 = predicateId_r s"
      "predicateStackTail_r ?s2 = predicateStackTail_r s" "name_r ?s2 = name_r s"
      by (simp_all add: addFailureInfo_def)
    from Cons.IH [OF w] s2 eq True show ?thesis
      by auto
  next
    case False
    obtain r m t where w: "addFailure_walk cs (n + 1) s = (r, m, t)"
      by (cases "addFailure_walk cs (n + 1) s") auto
    from Cons.prems False w have eq: "cs' = c # r" "s' = t"
      by (auto simp: Let_def)
    from Cons.IH [OF w] eq False show ?thesis
      by auto
  qed
qed

lemma addFailure_walk_stale:
  "\<forall>c \<in> set cs. id_p c \<le> lastUsedPredicateId_r s \<Longrightarrow>
   addFailure_walk cs n s = (cs, n + of_nat (length cs), s)"
proof (induction cs arbitrary: n)
  case Nil
  then show ?case by simp
next
  case (Cons c cs)
  from Cons.prems have "\<not> lastUsedPredicateId_r s < id_p c" by auto
  moreover from Cons.prems have "\<forall>c \<in> set cs. id_p c \<le> lastUsedPredicateId_r s" by simp
  from Cons.IH [OF this, of "n + 1"] have "addFailure_walk cs (n + 1) s = (cs, n + 1 + of_nat (length cs), s)" .
  ultimately show ?case by (simp add: add.assoc)
qed

lemma addFailure_walk_length:
  "addFailure_walk cs n s = (cs', n', s') \<Longrightarrow>
   length (failures_r s') \<le> length (failures_r s) + length cs
   \<and> take (length (failures_r s)) (failures_r s') = failures_r s"
proof (induction cs arbitrary: n s cs' n' s')
  case Nil
  then show ?case by simp
next
  case (Cons c cs)
  show ?case
  proof (cases "lastUsedPredicateId_r s < id_p c")
    case True
    let ?s2 = "addFailureInfo (file_p c) (line_p c) (expr_p c) n (s\<lparr>lastUsedPredicateId_r := id_p c\<rparr>)"
    obtain r m t where w: "addFailure_walk cs (n + 1) ?s2 = (r, m, t)"
      by (cases "addFailure_walk cs (n + 1) ?s2") auto
    from Cons.prems True w have eq: "s' = t"
      by (auto simp: Let_def)
    have f2: "failures_r ?s2 = failures_r s @ [\<lparr>file_f = file_p c, line_f = line_p c,
         expr_f = (case expr_p c of Some e \<Rightarrow> e | None \<Rightarrow> []), message_f = [], nestingLevel_f = n\<rparr>]"
      by (simp add: addFailureInfo_def)
    from Cons.IH [OF w] have "length (failures_r t) \<le> length (failures_r ?s2) + length cs"
      and tk: "take (length (failures_r ?s2)) (failures_r t) = failures_r ?s2" by auto
    from tk have "take (length (failures_r s)) (take (length (failures_r ?s2)) (failures_r t)) = failures_r s"
      by (simp add: f2)
    then have "take (length (failures_r s)) (failures_r t) = failures_r s"
      by (simp add: f2 min_def)
    with \<open>length (failures_r t) \<le> length (failures_r ?s2) + length cs\<close> eq f2 show ?thesis
      by simp
  next
    case False
    obtain r m t where w: "addFailure_walk cs (n + 1) s = (r, m, t)"
      by (cases "addFailure_walk cs (n + 1) s") auto
    from Cons.prems False w have eq: "s' = t"
      by (auto simp: Let_def)
    from Cons.IH [OF w] eq show ?thesis by auto
  qed
qed

text \<open>
  Claim C2. A second \<open>addFailure\<close> on the same chain makes no second record for a frame:
  it appends exactly one record, the failed assertion's own, and leaves the frames (with
  their links to their records) and the watermark as the first call left them. Over both
  calls at most one record per frame and two for the assertions are made.
\<close>

theorem addFailure_twice_no_duplicate:
  "failures_r (addFailure file2 line2 expr2 (addFailure file1 line1 expr1 s)) =
     failures_r (addFailure file1 line1 expr1 s) @
       [\<lparr>file_f = file2, line_f = line2, expr_f = (case expr2 of Some e \<Rightarrow> e | None \<Rightarrow> []),
         message_f = [], nestingLevel_f = of_nat (length (predicateChain_r s))\<rparr>]
   \<and> predicateChain_r (addFailure file2 line2 expr2 (addFailure file1 line1 expr1 s)) =
       predicateChain_r (addFailure file1 line1 expr1 s)
   \<and> lastUsedPredicateId_r (addFailure file2 line2 expr2 (addFailure file1 line1 expr1 s)) =
       lastUsedPredicateId_r (addFailure file1 line1 expr1 s)
   \<and> length (failures_r (addFailure file2 line2 expr2 (addFailure file1 line1 expr1 s))) \<le>
       length (failures_r s) + length (predicateChain_r s) + 2"
proof -
  let ?s1 = "addFailure file1 line1 expr1 s"
  obtain cs' n' s' where w: "addFailure_walk (predicateChain_r s) 0 s = (cs', n', s')"
    by (cases "addFailure_walk (predicateChain_r s) 0 s") auto
  note ids = addFailure_walk_ids [OF w]
  note len = addFailure_walk_length [OF w]
  have chain1: "predicateChain_r ?s1 = cs'" and lu1: "lastUsedPredicateId_r ?s1 = lastUsedPredicateId_r s'"
    and len1: "length (failures_r ?s1) = length (failures_r s') + 1"
    using w by (simp_all add: addFailure_def addFailureInfo_def)
  from ids have "\<forall>c \<in> set (predicateChain_r s). id_p c \<le> lastUsedPredicateId_r s'" by blast
  then have "\<forall>x \<in> set (map id_p (predicateChain_r s)). x \<le> lastUsedPredicateId_r s'" by simp
  with ids have "\<forall>x \<in> set (map id_p cs'). x \<le> lastUsedPredicateId_r s'" by metis
  then have stale: "\<forall>c \<in> set (predicateChain_r ?s1). id_p c \<le> lastUsedPredicateId_r ?s1"
    by (simp add: chain1 lu1)
  have w2: "addFailure_walk (predicateChain_r ?s1) 0 ?s1 =
              (predicateChain_r ?s1, of_nat (length (predicateChain_r ?s1)), ?s1)"
    using addFailure_walk_stale [OF stale, of 0] by simp
  have l: "length (predicateChain_r ?s1) = length (predicateChain_r s)"
    using ids chain1 by simp
  have a: "failures_r (addFailure file2 line2 expr2 ?s1) = failures_r ?s1 @
       [\<lparr>file_f = file2, line_f = line2, expr_f = (case expr2 of Some e \<Rightarrow> e | None \<Rightarrow> []),
         message_f = [], nestingLevel_f = of_nat (length (predicateChain_r s))\<rparr>]"
    by (simp add: addFailure_def [of file2 line2 expr2 ?s1] w2 addFailureInfo_def l)
  have b: "predicateChain_r (addFailure file2 line2 expr2 ?s1) = predicateChain_r ?s1"
    by (simp add: addFailure_def [of file2 line2 expr2 ?s1] w2 addFailureInfo_def)
  have c: "lastUsedPredicateId_r (addFailure file2 line2 expr2 ?s1) = lastUsedPredicateId_r ?s1"
    by (simp add: addFailure_def [of file2 line2 expr2 ?s1] w2 addFailureInfo_def)
  have d: "length (failures_r (addFailure file2 line2 expr2 ?s1)) \<le>
       length (failures_r s) + length (predicateChain_r s) + 2"
    using a len len1 by simp
  from a b c d show ?thesis by blast
qed

subsection \<open>Popping a frame, the watermark, message targets\<close>

lemma pop_walk_eq: "pop_walk cs k = k + (length cs - 1)"
  by (induction cs k rule: pop_walk.induct) auto

lemma drop_last_singleton: "cs \<noteq> [] \<Longrightarrow> drop (length cs - 1) cs = [last cs]"
  by (induction cs rule: rev_induct) auto

lemma popPredicateContext_nonempty:
  assumes "predicateChain_r s \<noteq> []"
  shows "popPredicateContext s =
     (case failure_p (last (predicateChain_r s)) of
        None \<Rightarrow> s
      | Some fl \<Rightarrow> s\<lparr>messageTarget_r := Some fl\<rparr>)
       \<lparr>predicateStackTail_r := length (predicateChain_r s) - 1,
        predicateChain_r := butlast (predicateChain_r s)\<rparr>"
proof -
  let ?cs = "predicateChain_r s"
  from assms have d: "drop (length ?cs - Suc 0) ?cs = [last ?cs]"
    using drop_last_singleton [of ?cs] by simp
  have t: "take (length ?cs - Suc 0) ?cs = butlast ?cs"
    by (simp add: butlast_conv_take)
  show ?thesis
    by (simp add: popPredicateContext_def pop_walk_eq d t)
qed

text \<open>
  Claim C3. When the tail frame of the chain has a record, \<open>popPredicateContext\<close> removes
  the frame and makes that record the message target; \<open>addToLastFailure\<close> then appends
  to the frame's record and changes no other record.
\<close>

theorem popPredicateContext_retargets:
  assumes "predicateChain_r s \<noteq> []"
    and "failure_p (last (predicateChain_r s)) = Some a"
    and "a < length (failures_r s)"
  shows "predicateChain_r (popPredicateContext s) = butlast (predicateChain_r s)
       \<and> predicateStackTail_r (popPredicateContext s) = length (predicateChain_r s) - 1
       \<and> messageTarget_r (popPredicateContext s) = Some a
       \<and> failures_r (popPredicateContext s) = failures_r s
       \<and> addToLastFailure message (popPredicateContext s) =
           Some ((popPredicateContext s)
                  \<lparr>failures_r := (failures_r s)
                     [a := (failures_r s ! a)\<lparr>message_f := message_f (failures_r s ! a) @ message\<rparr>]\<rparr>)
       \<and> (\<forall>s' j. addToLastFailure message (popPredicateContext s) = Some s' \<and> j \<noteq> a
             \<longrightarrow> failures_r s' ! j = failures_r s ! j)"
proof -
  from popPredicateContext_nonempty [OF assms(1)] assms(2)
  have p: "popPredicateContext s =
      s\<lparr>messageTarget_r := Some a, predicateStackTail_r := length (predicateChain_r s) - 1,
        predicateChain_r := butlast (predicateChain_r s)\<rparr>"
    by simp
  have app: "addToLastFailure message (popPredicateContext s) =
           Some ((popPredicateContext s)
                  \<lparr>failures_r := (failures_r s)
                     [a := (failures_r s ! a)\<lparr>message_f := message_f (failures_r s ! a) @ message\<rparr>]\<rparr>)"
    using assms(3) by (simp add: p addToLastFailure_def)
  have rest: "failures_r s' ! j = failures_r s ! j"
    if "addToLastFailure message (popPredicateContext s) = Some s'" and "j \<noteq> a" for s' j
  proof -
    from that(1) app have "s' = (popPredicateContext s)
                  \<lparr>failures_r := (failures_r s)
                     [a := (failures_r s ! a)\<lparr>message_f := message_f (failures_r s ! a) @ message\<rparr>]\<rparr>"
      by simp
    then have "failures_r s' = (failures_r s)
                     [a := (failures_r s ! a)\<lparr>message_f := message_f (failures_r s ! a) @ message\<rparr>]"
      by simp
    with that(2) show ?thesis by simp
  qed
  have c1: "predicateChain_r (popPredicateContext s) = butlast (predicateChain_r s)"
    and c2: "predicateStackTail_r (popPredicateContext s) = length (predicateChain_r s) - 1"
    and c3: "messageTarget_r (popPredicateContext s) = Some a"
    and c4: "failures_r (popPredicateContext s) = failures_r s"
    by (simp_all add: p)
  from c1 c2 c3 c4 app rest show ?thesis by blast
qed

theorem popPredicateContext_retargets_witness:
  "messageTarget_r failed_example = Some 2
   \<and> messageTarget_r (popPredicateContext failed_example) = Some 1
   \<and> map_option (map message_f \<circ> failures_r)
        (addToLastFailure ''detail'' (popPredicateContext failed_example)) = Some [[], ''detail'', []]"
proof -
  have h1: "predicateChain_r failed_example \<noteq> []"
    and h2: "failure_p (last (predicateChain_r failed_example)) = Some 1"
    and h3: "1 < length (failures_r failed_example)"
    by (simp_all add: failed_example_eq)
  note r = popPredicateContext_retargets [OF h1 h2 h3, of "''detail''"]
  have m: "messageTarget_r failed_example = Some 2"
    by (simp add: failed_example_eq)
  have f: "map message_f ((failures_r failed_example)
             [1 := (failures_r failed_example ! 1)
                \<lparr>message_f := message_f (failures_r failed_example ! 1) @ ''detail''\<rparr>]) = [[], ''detail'', []]"
    by (simp add: failed_example_eq)
  from r have t3: "messageTarget_r (popPredicateContext failed_example) = Some 1"
    by (elim conjE)
  from r have app: "addToLastFailure ''detail'' (popPredicateContext failed_example) =
           Some ((popPredicateContext failed_example)
                  \<lparr>failures_r := (failures_r failed_example)
                     [1 := (failures_r failed_example ! 1)
                        \<lparr>message_f := message_f (failures_r failed_example ! 1) @ ''detail''\<rparr>]\<rparr>)"
    by (elim conjE)
  have "map_option (map message_f \<circ> failures_r)
        (addToLastFailure ''detail'' (popPredicateContext failed_example)) = Some [[], ''detail'', []]"
    unfolding app using f by simp
  with m t3 show ?thesis by simp
qed

text \<open>
  Claim C10. When the tail frame has no record, \<open>popPredicateContext\<close> removes the frame
  and leaves the message target and every failure record as they were.
\<close>

theorem popPredicateContext_keeps_target:
  assumes "predicateChain_r s \<noteq> []"
    and "failure_p (last (predicateChain_r s)) = None"
  shows "predicateChain_r (popPredicateContext s) = butlast (predicateChain_r s)
       \<and> predicateStackTail_r (popPredicateContext s) = length (predicateChain_r s) - 1
       \<and> messageTarget_r (popPredicateContext s) = messageTarget_r s
       \<and> failures_r (popPredicateContext s) = failures_r s"
  using popPredicateContext_nonempty [OF assms(1)] assms(2) by simp

theorem popPredicateContext_keeps_target_witness:
  "predicateChain_r (popPredicateContext nested_example) = butlast (predicateChain_r nested_example)
   \<and> length (predicateChain_r (popPredicateContext nested_example)) = 1
   \<and> messageTarget_r (popPredicateContext nested_example) = None
   \<and> failures_r (popPredicateContext nested_example) = []"
proof -
  have h1: "predicateChain_r nested_example \<noteq> []"
    and h2: "failure_p (last (predicateChain_r nested_example)) = None"
    by (simp_all add: nested_example_eq)
  have l: "length (predicateChain_r nested_example) = 2" "messageTarget_r nested_example = None"
    "failures_r nested_example = []"
    by (simp_all add: nested_example_eq)
  from popPredicateContext_keeps_target [OF h1 h2] l show ?thesis by simp
qed

text \<open>
  Claim C9. On a TestResult whose chain is the root alone, with \<open>predicateStackTail_\<close> at
  the root, \<open>popPredicateContext\<close> changes nothing.
\<close>

theorem popPredicateContext_root_only:
  assumes "predicateChain_r s = []" and "predicateStackTail_r s = 0"
  shows "popPredicateContext s = s"
  using assms by (simp add: popPredicateContext_def)

theorem popPredicateContext_root_only_witness:
  "popPredicateContext TestResult_new = TestResult_new"
proof -
  have "predicateChain_r TestResult_new = []" and "predicateStackTail_r TestResult_new = 0"
    by (simp_all add: TestResult_new_def)
  then show ?thesis by (rule popPredicateContext_root_only)
qed

lemma addToLastFailure_frame:
  "addToLastFailure m s = Some s' \<Longrightarrow>
     lastUsedPredicateId_r s' = lastUsedPredicateId_r s \<and> predicateChain_r s' = predicateChain_r s
     \<and> messageTarget_r s' = messageTarget_r s \<and> length (failures_r s') = length (failures_r s)"
  by (auto simp: addToLastFailure_def split: option.splits if_splits)

lemma addFailure_watermark:
  "lastUsedPredicateId_r (addFailure file line expr s) = lastUsedPredicateId_r s
   \<or> (lastUsedPredicateId_r s < lastUsedPredicateId_r (addFailure file line expr s)
      \<and> lastUsedPredicateId_r (addFailure file line expr s) \<in> id_p ` set (predicateChain_r s))"
proof -
  obtain cs' n' s' where w: "addFailure_walk (predicateChain_r s) 0 s = (cs', n', s')"
    by (cases "addFailure_walk (predicateChain_r s) 0 s") auto
  have "lastUsedPredicateId_r (addFailure file line expr s) = lastUsedPredicateId_r s'"
    using w by (simp add: addFailure_def addFailureInfo_def)
  with addFailure_walk_ids [OF w] show ?thesis
    by (metis order_le_imp_less_or_eq)
qed

lemma popPredicateContext_lastUsed:
  "lastUsedPredicateId_r (popPredicateContext s) = lastUsedPredicateId_r s"
  by (simp add: popPredicateContext_def Let_def split: option.splits list.splits)

lemma pushPredicateContext_lastUsed:
  "lastUsedPredicateId_r (pushPredicateContext fl ln ex s) = lastUsedPredicateId_r s"
  by (simp add: pushPredicateContext_def Let_def)

lemma step_watermark:
  "step x s = Some t \<Longrightarrow>
     lastUsedPredicateId_r t = lastUsedPredicateId_r s
     \<or> (lastUsedPredicateId_r s < lastUsedPredicateId_r t
        \<and> lastUsedPredicateId_r t \<in> id_p ` set (predicateChain_r s))"
proof (cases x)
  case (SetTestName n)
  assume "step x s = Some t"
  with SetTestName show ?thesis by (auto simp: setTestName_def)
next
  case (AddFailure fl ln ex)
  assume "step x s = Some t"
  with AddFailure have "t = addFailure fl ln ex s" by simp
  with addFailure_watermark [of fl ln ex s] show ?thesis by simp
next
  case (PushPredicateContext fl ln ex)
  assume "step x s = Some t"
  with PushPredicateContext have "t = pushPredicateContext fl ln ex s" by simp
  then show ?thesis by (simp add: pushPredicateContext_lastUsed)
next
  case PopPredicateContext
  assume "step x s = Some t"
  with PopPredicateContext have "t = popPredicateContext s" by simp
  then show ?thesis by (simp add: popPredicateContext_lastUsed)
next
  case (ShlBool v)
  assume "step x s = Some t"
  with ShlBool have "addToLastFailure (if v then ''true'' else ''false'') s = Some t"
    by (simp add: shl_bool_def)
  from addToLastFailure_frame [OF this] show ?thesis by simp
next
  case (ShlInt64 v)
  assume "step x s = Some t"
  with ShlInt64 have "addToLastFailure (to_string_int64 v) s = Some t"
    by (simp add: shl_int64_def)
  from addToLastFailure_frame [OF this] show ?thesis by simp
next
  case (ShlUInt64 v)
  assume "step x s = Some t"
  with ShlUInt64 have "addToLastFailure (to_string_uint64 v) s = Some t"
    by (simp add: shl_uint64_def)
  from addToLastFailure_frame [OF this] show ?thesis by simp
next
  case (ShlGeneric w)
  assume "step x s = Some t"
  with ShlGeneric have "\<exists>m. addToLastFailure m s = Some t"
    by (auto simp: shl_generic_def Let_def)
  then obtain m where "addToLastFailure m s = Some t" ..
  from addToLastFailure_frame [OF this] show ?thesis by simp
qed

lemma run_watermark:
  "run ops s = Some s' \<Longrightarrow> lastUsedPredicateId_r s \<le> lastUsedPredicateId_r s'"
proof (induction ops arbitrary: s)
  case Nil
  then show ?case by simp
next
  case (Cons x xs)
  then obtain t where st: "step x s = Some t" and r: "run xs t = Some s'"
    by (auto split: option.splits)
  from step_watermark [OF st] have "lastUsedPredicateId_r s \<le> lastUsedPredicateId_r t"
    by auto
  with Cons.IH [OF r] show ?case by simp
qed

text \<open>
  Claim C6. Over any sequence of operations the watermark \<open>lastUsedPredicateId_\<close> never
  decreases: one operation leaves it unchanged or raises it to the id of a frame of the
  chain.
\<close>

theorem watermark_never_decreases:
  "(run ops s = Some s' \<longrightarrow> lastUsedPredicateId_r s \<le> lastUsedPredicateId_r s')
   \<and> (step x s = Some t \<longrightarrow>
        lastUsedPredicateId_r t = lastUsedPredicateId_r s
        \<or> (lastUsedPredicateId_r s < lastUsedPredicateId_r t
           \<and> lastUsedPredicateId_r t \<in> id_p ` set (predicateChain_r s)))"
proof (intro conjI impI)
  assume "run ops s = Some s'"
  then show "lastUsedPredicateId_r s \<le> lastUsedPredicateId_r s'"
    by (rule run_watermark)
next
  assume "step x s = Some t"
  then show "lastUsedPredicateId_r t = lastUsedPredicateId_r s
        \<or> (lastUsedPredicateId_r s < lastUsedPredicateId_r t
           \<and> lastUsedPredicateId_r t \<in> id_p ` set (predicateChain_r s))"
    by (rule step_watermark)
qed

theorem watermark_never_decreases_witness:
  "lastUsedPredicateId_r TestResult_new = 0
   \<and> map_option lastUsedPredicateId_r
        (run [PushPredicateContext (Some ''t.cpp'') 10 (Some ''outer()''),
              AddFailure (Some ''t.cpp'') 30 (Some ''x == y''), ShlBool True,
              PopPredicateContext, AddFailure None 0 None] TestResult_new) = Some 1
   \<and> lastUsedPredicateId_r nested_example < lastUsedPredicateId_r failed_example
   \<and> lastUsedPredicateId_r failed_example \<in> id_p ` set (predicateChain_r nested_example)"
proof -
  let ?ops = "[PushPredicateContext (Some ''t.cpp'') 10 (Some ''outer()''),
              AddFailure (Some ''t.cpp'') 30 (Some ''x == y''), ShlBool True,
              PopPredicateContext, AddFailure None 0 None]"
  let ?end = "\<lparr>predicateId_r = 2, predicateStackTail_r = 0,
      failures_r =
        [\<lparr>file_f = Some ''t.cpp'', line_f = 10, expr_f = ''outer()'', message_f = [], nestingLevel_f = 0\<rparr>,
         \<lparr>file_f = Some ''t.cpp'', line_f = 30, expr_f = ''x == y'', message_f = ''true'', nestingLevel_f = 1\<rparr>,
         \<lparr>file_f = None, line_f = 0, expr_f = [], message_f = [], nestingLevel_f = 0\<rparr>],
      name_r = [], predicateChain_r = [], lastUsedPredicateId_r = 1, messageTarget_r = Some 2\<rparr>"
  have r: "run ?ops TestResult_new = Some ?end"
    by (simp add: TestResult_new_def pushPredicateContext_def addFailure_def addFailureInfo_def
          shl_bool_def addToLastFailure_def popPredicateContext_def)
  have st: "step (AddFailure (Some ''t.cpp'') 30 (Some ''x == y'')) nested_example = Some failed_example"
    by (simp add: failed_example_def)
  have ne: "lastUsedPredicateId_r failed_example \<noteq> lastUsedPredicateId_r nested_example"
    by (simp add: failed_example_eq nested_example_eq)
  have z: "lastUsedPredicateId_r TestResult_new = 0"
    by (simp add: TestResult_new_def)
  note mono = watermark_never_decreases [THEN conjunct1, THEN mp, OF r]
  from watermark_never_decreases [THEN conjunct2, THEN mp, OF st] ne
  have up: "lastUsedPredicateId_r nested_example < lastUsedPredicateId_r failed_example
     \<and> lastUsedPredicateId_r failed_example \<in> id_p ` set (predicateChain_r nested_example)"
    by blast
  have "map_option lastUsedPredicateId_r (run ?ops TestResult_new) = Some 1"
    unfolding r by simp
  with z up mono show ?thesis by simp
qed

text \<open>
  Claim C7. Without a message target \<open>addToLastFailure\<close> and every \<open>operator<<\<close> return the
  TestResult unchanged; with a target they append the text to the target's message.
\<close>

theorem addToLastFailure_no_target_noop:
  "(messageTarget_r s = None \<longrightarrow>
      addToLastFailure message s = Some s \<and> shl_bool b s = Some s \<and> shl_int64 v s = Some s
      \<and> shl_uint64 u s = Some s \<and> shl_generic put x s = Some s)
   \<and> (messageTarget_r s = Some t \<and> t < length (failures_r s) \<longrightarrow>
      addToLastFailure message s =
        Some (s\<lparr>failures_r := (failures_r s)
                 [t := (failures_r s ! t)\<lparr>message_f := message_f (failures_r s ! t) @ message\<rparr>]\<rparr>))"
  by (simp add: addToLastFailure_def shl_bool_def shl_int64_def shl_uint64_def shl_generic_def)

theorem addToLastFailure_no_target_noop_witness:
  "messageTarget_r nested_example = None
   \<and> addToLastFailure ''text'' nested_example = Some nested_example
   \<and> shl_int64 5 nested_example = Some nested_example
   \<and> messageTarget_r failed_example = Some 2
   \<and> map_option (map message_f \<circ> failures_r) (addToLastFailure ''text'' failed_example) =
       Some [[], [], ''text'']"
proof -
  have n: "messageTarget_r nested_example = None"
    by (simp add: nested_example_eq)
  have t: "messageTarget_r failed_example = Some 2 \<and> 2 < length (failures_r failed_example)"
    by (simp add: failed_example_eq)
  have f: "map message_f ((failures_r failed_example)
             [2 := (failures_r failed_example ! 2)
                \<lparr>message_f := message_f (failures_r failed_example ! 2) @ ''text''\<rparr>]) = [[], [], ''text'']"
    by (simp add: failed_example_eq)
  from addToLastFailure_no_target_noop [where s = nested_example and message = "''text''" and v = 5
         and b = True and u = 0 and put = "\<lambda>_ _. []" and x = "()" and t = 0] n
  have a: "addToLastFailure ''text'' nested_example = Some nested_example
         \<and> shl_int64 5 nested_example = Some nested_example"
    by simp
  from addToLastFailure_no_target_noop [where s = failed_example and message = "''text''" and t = 2
         and b = True and u = 0 and put = "\<lambda>_ _. []" and x = "()" and v = 0] t f
  have b: "map_option (map message_f \<circ> failures_r) (addToLastFailure ''text'' failed_example) =
       Some [[], [], ''text'']"
    by simp
  from n a t b show ?thesis by simp
qed

subsection \<open>Well-formed states\<close>

lemma linked_mono: "linked n c \<Longrightarrow> n \<le> m \<Longrightarrow> linked m c"
  by (auto simp: linked_def split: option.splits)

lemma list_all_linked_mono:
  "list_all (linked n) cs \<Longrightarrow> n \<le> m \<Longrightarrow> list_all (linked m) cs"
  by (induction cs) (auto intro: linked_mono)

lemma addFailure_walk_linked:
  "addFailure_walk cs n s = (cs', n', s') \<Longrightarrow> list_all (linked (length (failures_r s))) cs \<Longrightarrow>
   list_all (linked (length (failures_r s'))) cs' \<and> length (failures_r s) \<le> length (failures_r s')"
proof (induction cs arbitrary: n s cs' n' s')
  case Nil
  then show ?case by simp
next
  case (Cons c cs)
  show ?case
  proof (cases "lastUsedPredicateId_r s < id_p c")
    case True
    let ?s2 = "addFailureInfo (file_p c) (line_p c) (expr_p c) n (s\<lparr>lastUsedPredicateId_r := id_p c\<rparr>)"
    obtain r m t where w: "addFailure_walk cs (n + 1) ?s2 = (r, m, t)"
      by (cases "addFailure_walk cs (n + 1) ?s2") auto
    from Cons.prems(1) True w
    have eq: "cs' = c\<lparr>failure_p := Some (length (failures_r ?s2) - 1)\<rparr> # r" "s' = t"
      by (auto simp: Let_def)
    have len2: "length (failures_r ?s2) = length (failures_r s) + 1"
      by (simp add: addFailureInfo_def)
    from Cons.prems(2) have "list_all (linked (length (failures_r s))) cs" by simp
    then have "list_all (linked (length (failures_r ?s2))) cs"
      by (rule list_all_linked_mono) (simp add: len2)
    from Cons.IH [OF w this]
    have ih: "list_all (linked (length (failures_r t))) r" "length (failures_r ?s2) \<le> length (failures_r t)"
      by auto
    have "linked (length (failures_r t)) (c\<lparr>failure_p := Some (length (failures_r ?s2) - 1)\<rparr>)"
      using ih(2) len2 by (simp add: linked_def)
    with ih eq len2 show ?thesis by simp
  next
    case False
    obtain r m t where w: "addFailure_walk cs (n + 1) s = (r, m, t)"
      by (cases "addFailure_walk cs (n + 1) s") auto
    from Cons.prems(1) False w have eq: "cs' = c # r" "s' = t"
      by (auto simp: Let_def)
    from Cons.prems(2) have c: "linked (length (failures_r s)) c"
      and cs: "list_all (linked (length (failures_r s))) cs" by simp_all
    from Cons.IH [OF w cs]
    have ih: "list_all (linked (length (failures_r t))) r" "length (failures_r s) \<le> length (failures_r t)"
      by auto
    from linked_mono [OF c ih(2)] ih eq show ?thesis by simp
  qed
qed

lemma well_formed_new: "well_formed TestResult_new"
  by (simp add: well_formed_def TestResult_new_def)

lemma well_formed_addFailure:
  assumes "well_formed s"
  shows "well_formed (addFailure fl ln ex s)"
proof -
  obtain cs' n' s' where w: "addFailure_walk (predicateChain_r s) 0 s = (cs', n', s')"
    by (cases "addFailure_walk (predicateChain_r s) 0 s") auto
  from assms have l: "list_all (linked (length (failures_r s))) (predicateChain_r s)"
    and tl: "predicateStackTail_r s = length (predicateChain_r s)"
    by (simp_all add: well_formed_def)
  note k = addFailure_walk_linked [OF w l]
  note i = addFailure_walk_ids [OF w]
  have res: "addFailure fl ln ex s =
      (addFailureInfo fl ln ex n' (s'\<lparr>predicateChain_r := cs'\<rparr>))
        \<lparr>messageTarget_r := Some (length (failures_r s'))\<rparr>"
    using w by (simp add: addFailure_def addFailureInfo_def)
  have "list_all (linked (length (failures_r s') + 1)) cs'"
    using k by (auto intro: list_all_linked_mono)
  then show ?thesis
    using i tl by (simp add: res well_formed_def addFailureInfo_def)
qed

lemma well_formed_pushPredicateContext:
  "well_formed s \<Longrightarrow> well_formed (pushPredicateContext fl ln ex s)"
  by (simp add: well_formed_def pushPredicateContext_def linked_def split: option.splits)

lemma list_all_butlast: "list_all P xs \<Longrightarrow> list_all P (butlast xs)"
  by (induction xs) auto

lemma well_formed_popPredicateContext:
  assumes "well_formed s"
  shows "well_formed (popPredicateContext s)"
proof (cases "predicateChain_r s = []")
  case True
  with assms show ?thesis
    by (simp add: well_formed_def popPredicateContext_def split: option.splits)
next
  case False
  from assms have l: "list_all (linked (length (failures_r s))) (predicateChain_r s)"
    by (simp add: well_formed_def)
  then have b: "list_all (linked (length (failures_r s))) (butlast (predicateChain_r s))"
    by (rule list_all_butlast)
  from False have "last (predicateChain_r s) \<in> set (predicateChain_r s)" by simp
  with l have la: "linked (length (failures_r s)) (last (predicateChain_r s))"
    by (simp add: list_all_iff)
  show ?thesis
  proof (cases "failure_p (last (predicateChain_r s))")
    case None
    with popPredicateContext_nonempty [OF False] assms b show ?thesis
      by (simp add: well_formed_def split: option.splits)
  next
    case (Some a)
    with la have "a < length (failures_r s)" by (simp add: linked_def)
    with popPredicateContext_nonempty [OF False] Some b show ?thesis
      by (simp add: well_formed_def)
  qed
qed

lemma well_formed_addToLastFailure:
  "well_formed s \<Longrightarrow> \<exists>t. addToLastFailure m s = Some t \<and> well_formed t"
  by (auto simp: well_formed_def addToLastFailure_def split: option.splits)

lemma well_formed_step:
  assumes "well_formed s"
  shows "\<exists>t. step x s = Some t \<and> well_formed t"
proof (cases x)
  case (SetTestName n)
  with assms show ?thesis by (simp add: setTestName_def well_formed_def split: option.splits)
next
  case (AddFailure fl ln ex)
  with well_formed_addFailure [OF assms] show ?thesis by simp
next
  case (PushPredicateContext fl ln ex)
  with well_formed_pushPredicateContext [OF assms] show ?thesis by simp
next
  case PopPredicateContext
  with well_formed_popPredicateContext [OF assms] show ?thesis by simp
next
  case (ShlBool v)
  with well_formed_addToLastFailure [OF assms] show ?thesis by (simp add: shl_bool_def)
next
  case (ShlInt64 v)
  with well_formed_addToLastFailure [OF assms] show ?thesis by (simp add: shl_int64_def)
next
  case (ShlUInt64 v)
  with well_formed_addToLastFailure [OF assms] show ?thesis by (simp add: shl_uint64_def)
next
  case (ShlGeneric w)
  with well_formed_addToLastFailure [OF assms] show ?thesis by (simp add: shl_generic_def Let_def)
qed

lemma well_formed_run:
  "well_formed s \<Longrightarrow> \<exists>t. run ops s = Some t \<and> well_formed t"
proof (induction ops arbitrary: s)
  case Nil
  then show ?case by simp
next
  case (Cons x xs)
  from well_formed_step [OF Cons.prems] obtain u where u: "step x s = Some u" "well_formed u"
    by blast
  from Cons.IH [OF u(2)] u(1) show ?case by simp
qed

subsection \<open>Frame ids before the counter wraps around\<close>



















subsection \<open>Evaluating the printing functions\<close>

lemma unlocated_example_failures:
  "failures_r unlocated_example =
     [\<lparr>file_f = Some ''t.cpp'', line_f = 10, expr_f = ''outer()'', message_f = [], nestingLevel_f = 0\<rparr>,
      \<lparr>file_f = None, line_f = 0, expr_f = ''x'', message_f = [], nestingLevel_f = 1\<rparr>]"
  by (simp add: unlocated_example_def pushPredicateContext_def TestResult_new_def addFailure_def
        addFailureInfo_def)

lemma decimal_examples:
  "decimal 0 = ''0''" "decimal 10 = ''10''" "decimal 20 = ''20''" "decimal 30 = ''30''"
  by (simp_all add: decimal.simps digit_char_def)

lemma replicate_small:
  "replicate 2 c = [c, c]" "replicate 4 c = [c, c, c, c]"
  by (simp_all add: eval_nat_numeral)

lemma render_examples:
  "printFailure_body \<lparr>file_f = Some ''t.cpp'', line_f = 10, expr_f = ''outer()'', message_f = [],
       nestingLevel_f = 0\<rparr> [] = ''t.cpp(10): outer()'' @ [newline]"
  "printFailure_body \<lparr>file_f = Some ''t.cpp'', line_f = 20, expr_f = ''inner()'', message_f = [],
       nestingLevel_f = 1\<rparr> [] = ''  t.cpp(20): inner()'' @ [newline]"
  "printFailure_body \<lparr>file_f = Some ''t.cpp'', line_f = 30, expr_f = ''x == y'', message_f = [],
       nestingLevel_f = 2\<rparr> [] = ''    t.cpp(30): x == y'' @ [newline]"
  "printFailure_body \<lparr>file_f = None, line_f = 0, expr_f = ''x'', message_f = [],
       nestingLevel_f = 1\<rparr> [] = ''x'' @ [newline]"
  by (simp_all add: printFailure_body_def c_str_def decimal_examples replicate_small)

lemma indentText_example:
  "indentText (''ab'' @ [newline] @ ''cd'') ''  '' = ''  ab'' @ [newline] @ ''  cd''"
  by (simp add: indentText_def indentText_loop.simps find_char_def newline_def)

subsection \<open>Printing\<close>

lemma printFailure_loop_acc:
  "printFailure_body f (out @ acc) = out @ printFailure_body f acc"
  by (simp add: printFailure_body_def Let_def split: option.splits)

lemma printFailure_body_out:
  "printFailure_body f out = out @ printFailure_body f []"
  using printFailure_loop_acc [of f out "[]"] by simp

lemma printFailure_loop_concat:
  "printFailure_loop fs out = out @ concat (map (\<lambda>f. printFailure_body f []) fs)"
proof (induction fs arbitrary: out)
  case Nil
  then show ?case by simp
next
  case (Cons f fs)
  have "printFailure_loop (f # fs) out = printFailure_loop fs (printFailure_body f out)"
    by simp
  also have "\<dots> = printFailure_body f out @ concat (map (\<lambda>f. printFailure_body f []) fs)"
    by (rule Cons.IH)
  also have "printFailure_body f out = out @ printFailure_body f []"
    by (rule printFailure_body_out)
  finally show ?case by simp
qed

lemma unat_times_2: "unat (n :: uint) < 2 ^ 31 \<Longrightarrow> unat (n * 2) = 2 * unat n"
  by (simp add: unat_word_ariths)

text \<open>
  Claim C4, as amended. \<open>printFailure\<close> writes the records in the order of the sequence,
  first to last, after the optional header. A record with a source file starts with two
  spaces per nesting level, then \<open>file(line): \<close>; the expression of a record without a
  source file is written without indentation; a message is re-indented by two spaces
  more. (Nesting levels below \<open>2^31\<close>: the doubling is an \<^verbatim>\<open>unsigned int\<close> product.)
\<close>

theorem printFailure_insertion_order:
  "(failures_r s \<noteq> [] \<longrightarrow>
      printFailure printTestName s out =
        out @ (if printTestName
               then ''* Detail of '' @ c_str (name_r s) @ '' test failure:'' @ [newline] else [])
            @ concat (map (\<lambda>f. printFailure_body f []) (failures_r s)))
   \<and> (file_f f = Some fl \<and> unat (nestingLevel_f f) < 2 ^ 31 \<longrightarrow>
      printFailure_body f [] =
        replicate (2 * unat (nestingLevel_f f)) CHR '' '' @ fl @ ''('' @ decimal (unat (line_f f)) @ ''): ''
          @ (if expr_f f \<noteq> [] then c_str (expr_f f) else []) @ [newline]
          @ (if message_f f \<noteq> []
             then c_str (indentText (message_f f) (replicate (2 * unat (nestingLevel_f f) + 2) CHR '' ''))
                  @ [newline]
             else []))
   \<and> (file_f f = None \<and> unat (nestingLevel_f f) < 2 ^ 31 \<longrightarrow>
      printFailure_body f [] =
        (if expr_f f \<noteq> [] then c_str (expr_f f) @ [newline] else [])
          @ (if message_f f \<noteq> []
             then c_str (indentText (message_f f) (replicate (2 * unat (nestingLevel_f f) + 2) CHR '' ''))
                  @ [newline]
             else []))"
proof (intro conjI impI)
  assume "failures_r s \<noteq> []"
  then show "printFailure printTestName s out =
        out @ (if printTestName
               then ''* Detail of '' @ c_str (name_r s) @ '' test failure:'' @ [newline] else [])
            @ concat (map (\<lambda>f. printFailure_body f []) (failures_r s))"
    by (simp add: printFailure_def printFailure_loop_concat)
next
  assume a: "file_f f = Some fl \<and> unat (nestingLevel_f f) < 2 ^ 31"
  then have u: "unat (nestingLevel_f f * 2) = 2 * unat (nestingLevel_f f)"
    by (simp add: unat_times_2)
  have r: "replicate (2 * n) CHR '' '' @ ''  '' = replicate (2 * n + 2) CHR '' ''" for n
    by (simp add: replicate_app_Cons_same)
  from a show "printFailure_body f [] =
        replicate (2 * unat (nestingLevel_f f)) CHR '' '' @ fl @ ''('' @ decimal (unat (line_f f)) @ ''): ''
          @ (if expr_f f \<noteq> [] then c_str (expr_f f) else []) @ [newline]
          @ (if message_f f \<noteq> []
             then c_str (indentText (message_f f) (replicate (2 * unat (nestingLevel_f f) + 2) CHR '' ''))
                  @ [newline]
             else [])"
    by (simp add: printFailure_body_def Let_def u r)
next
  assume a: "file_f f = None \<and> unat (nestingLevel_f f) < 2 ^ 31"
  then have u: "unat (nestingLevel_f f * 2) = 2 * unat (nestingLevel_f f)"
    by (simp add: unat_times_2)
  have r: "replicate (2 * n) CHR '' '' @ ''  '' = replicate (2 * n + 2) CHR '' ''" for n
    by (simp add: replicate_app_Cons_same)
  from a show "printFailure_body f [] =
        (if expr_f f \<noteq> [] then c_str (expr_f f) @ [newline] else [])
          @ (if message_f f \<noteq> []
             then c_str (indentText (message_f f) (replicate (2 * unat (nestingLevel_f f) + 2) CHR '' ''))
                  @ [newline]
             else [])"
    by (simp add: printFailure_body_def Let_def u r)
qed

theorem printFailure_insertion_order_witness:
  "printFailure True (setTestName ''Fixture/case'' failed_example) [] =
     ''* Detail of Fixture/case test failure:'' @ [newline]
       @ ''t.cpp(10): outer()'' @ [newline]
       @ ''  t.cpp(20): inner()'' @ [newline]
       @ ''    t.cpp(30): x == y'' @ [newline]
   \<and> printFailure_body \<lparr>file_f = Some ''t.cpp'', line_f = 30, expr_f = ''x == y'',
         message_f = ''ab'' @ [newline] @ ''cd'', nestingLevel_f = 1\<rparr> [] =
       ''  t.cpp(30): x == y'' @ [newline] @ ''    ab'' @ [newline] @ ''    cd'' @ [newline]
   \<and> printFailure_body \<lparr>file_f = None, line_f = 0, expr_f = ''x'', message_f = [],
         nestingLevel_f = 1\<rparr> [] = ''x'' @ [newline]"
proof -
  let ?s = "setTestName ''Fixture/case'' failed_example"
  let ?f = "\<lparr>file_f = Some ''t.cpp'', line_f = 30, expr_f = ''x == y'',
         message_f = ''ab'' @ [newline] @ ''cd'', nestingLevel_f = 1\<rparr>"
  let ?g = "\<lparr>file_f = None, line_f = 0, expr_f = ''x'', message_f = [], nestingLevel_f = 1\<rparr>"
  have fs: "failures_r ?s =
        [\<lparr>file_f = Some ''t.cpp'', line_f = 10, expr_f = ''outer()'', message_f = [], nestingLevel_f = 0\<rparr>,
         \<lparr>file_f = Some ''t.cpp'', line_f = 20, expr_f = ''inner()'', message_f = [], nestingLevel_f = 1\<rparr>,
         \<lparr>file_f = Some ''t.cpp'', line_f = 30, expr_f = ''x == y'', message_f = [], nestingLevel_f = 2\<rparr>]"
    and nm: "name_r ?s = ''Fixture/case''"
    by (simp_all add: setTestName_def failed_example_eq)
  have ne: "failures_r ?s \<noteq> []"
    by (simp add: fs)
  note ord = printFailure_insertion_order [where s = ?s and printTestName = True and out = "[]",
      THEN conjunct1, THEN mp, OF ne]
  have a: "printFailure True ?s [] =
     ''* Detail of Fixture/case test failure:'' @ [newline]
       @ ''t.cpp(10): outer()'' @ [newline]
       @ ''  t.cpp(20): inner()'' @ [newline]
       @ ''    t.cpp(30): x == y'' @ [newline]"
    unfolding ord by (simp add: fs nm render_examples c_str_def)
  have hf: "file_f ?f = Some ''t.cpp'' \<and> unat (nestingLevel_f ?f) < 2 ^ 31"
    by simp
  note loc = printFailure_insertion_order [where f = ?f and fl = "''t.cpp''",
      THEN conjunct2, THEN conjunct1, THEN mp, OF hf]
  have ind: "indentText (''ab'' @ [newline] @ ''cd'') ''    '' = ''    ab'' @ [newline] @ ''    cd''"
    by (simp add: indentText_def indentText_loop.simps find_char_def newline_def)
  have b: "printFailure_body ?f [] =
       ''  t.cpp(30): x == y'' @ [newline] @ ''    ab'' @ [newline] @ ''    cd'' @ [newline]"
    unfolding loc using ind by (simp add: decimal_examples replicate_small c_str_def newline_def)
  have hg: "file_f ?g = None \<and> unat (nestingLevel_f ?g) < 2 ^ 31"
    by simp
  note unl = printFailure_insertion_order [where f = ?g,
      THEN conjunct2, THEN conjunct2, THEN mp, OF hg]
  have c: "printFailure_body ?g [] = ''x'' @ [newline]"
    unfolding unl by (simp add: c_str_def)
  from a b c show ?thesis by (simp only: simp_thms)
qed

text \<open>
  Claim C4 as stated fails: a failed assertion recorded without a source file inside one
  predicate frame has nesting level 1 and is printed with no indentation at all.
\<close>

theorem printFailure_indentation_counterexample:
  "nestingLevel_f (failures_r unlocated_example ! 1) = 1
   \<and> printFailure_body (failures_r unlocated_example ! 1) [] = ''x'' @ [newline]
   \<and> take 2 (printFailure_body (failures_r unlocated_example ! 1) []) \<noteq> ''  ''
   \<and> printFailure False unlocated_example [] =
       ''t.cpp(10): outer()'' @ [newline] @ ''x'' @ [newline]"
  by (simp add: unlocated_example_failures printFailure_def printFailure_body_def c_str_def
        decimal.simps digit_char_def newline_def)

subsection \<open>The append operators\<close>

lemma digits_value_snoc: "digits_value (ds @ [c]) = 10 * digits_value ds + (of_char c - 48)"
  by (simp add: digits_value_def)

lemma of_char_digit_char: "d < 10 \<Longrightarrow> of_char (digit_char d) = (48 + d :: nat)"
proof -
  assume "d < 10"
  then have "d \<in> {0, 1, 2, 3, 4, 5, 6, 7, 8, 9}" by auto
  then show ?thesis by (auto simp: digit_char_def)
qed

lemma decimal_value: "digits_value (decimal n) = n"
proof (induction n rule: decimal.induct)
  case (1 n)
  show ?case
  proof (cases "n < 10")
    case True
    then show ?thesis
      by (subst decimal.simps) (simp add: digits_value_def of_char_digit_char)
  next
    case False
    have "of_char (digit_char (n mod 10)) = (48 + n mod 10 :: nat)"
      by (simp add: of_char_digit_char)
    with False 1 show ?thesis
      by (subst decimal.simps) (simp add: digits_value_snoc)
  qed
qed

lemma addToLastFailure_target:
  "messageTarget_r s = Some t \<Longrightarrow> t < length (failures_r s) \<Longrightarrow>
   addToLastFailure m s =
     Some (s\<lparr>failures_r := (failures_r s)
              [t := (failures_r s ! t)\<lparr>message_f := message_f (failures_r s ! t) @ m\<rparr>]\<rparr>)"
  by (simp add: addToLastFailure_def)

lemma step_shl:
  assumes "is_shl x"
  shows "step x s = addToLastFailure (shl_text x) s"
  using assms
  by (cases x) (simp_all add: shl_bool_def shl_int64_def shl_uint64_def shl_generic_def fresh_stream_def)

lemma run_shl:
  "messageTarget_r s = Some t \<Longrightarrow> t < length (failures_r s) \<Longrightarrow> list_all is_shl ops \<Longrightarrow>
   run ops s =
     Some (s\<lparr>failures_r := (failures_r s)
              [t := (failures_r s ! t)
                 \<lparr>message_f := message_f (failures_r s ! t) @ concat (map shl_text ops)\<rparr>]\<rparr>)"
proof (induction ops arbitrary: s)
  case Nil
  then show ?case by simp
next
  case (Cons x xs)
  let ?u = "s\<lparr>failures_r := (failures_r s)
              [t := (failures_r s ! t)\<lparr>message_f := message_f (failures_r s ! t) @ shl_text x\<rparr>]\<rparr>"
  from Cons.prems(3) have x: "is_shl x" and xs: "list_all is_shl xs" by simp_all
  have st: "step x s = Some ?u"
    unfolding step_shl [OF x] using Cons.prems(1,2) by (rule addToLastFailure_target)
  have u: "messageTarget_r ?u = Some t" "t < length (failures_r ?u)"
    using Cons.prems(1,2) by simp_all
  have "run (x # xs) s = run xs ?u"
    by (simp add: st)
  also have "\<dots> = Some (?u\<lparr>failures_r := (failures_r ?u)
              [t := (failures_r ?u ! t)
                 \<lparr>message_f := message_f (failures_r ?u ! t) @ concat (map shl_text xs)\<rparr>]\<rparr>)"
    using u xs by (rule Cons.IH)
  also have "?u\<lparr>failures_r := (failures_r ?u)
              [t := (failures_r ?u ! t)
                 \<lparr>message_f := message_f (failures_r ?u ! t) @ concat (map shl_text xs)\<rparr>]\<rparr> =
      s\<lparr>failures_r := (failures_r s)
              [t := (failures_r s ! t)
                 \<lparr>message_f := message_f (failures_r s ! t) @ concat (map shl_text (x # xs))\<rparr>]\<rparr>"
    using Cons.prems(2) by simp
  finally show ?case .
qed

text \<open>
  Claim C5, as amended. With a message target, any sequence of \<open>operator<<\<close> calls appends
  the texts of the calls to the target's message in call order: a 64-bit integer as its
  decimal digits (signed: with a minus sign), a boolean as \<open>true\<close> or \<open>false\<close>, and a
  generic value as the stream writes it after \<^verbatim>\<open>setprecision(16)\<close> and \<^verbatim>\<open>hexfloat\<close>, which
  is what a fresh stream writes when the inserter of the value does not depend on the
  precision and the floatfield.
\<close>

theorem shl_chain_appends_in_order:
  assumes "messageTarget_r s = Some t" and "t < length (failures_r s)" and "list_all is_shl ops"
  shows "run ops s =
           Some (s\<lparr>failures_r := (failures_r s)
                    [t := (failures_r s ! t)
                       \<lparr>message_f := message_f (failures_r s ! t) @ concat (map shl_text ops)\<rparr>]\<rparr>)
       \<and> shl_text (ShlInt64 v) =
           (if sint v < 0 then CHR ''-'' # decimal (nat (- sint v)) else decimal (nat (sint v)))
       \<and> shl_text (ShlUInt64 u) = decimal (unat u)
       \<and> shl_text (ShlBool b) = (if b then ''true'' else ''false'')
       \<and> shl_text (ShlGeneric (\<lambda>fmt. put fmt x)) = put \<lparr>precision = 16, floatfield = hexfloat\<rparr> x
       \<and> step (ShlInt64 v) s = shl_int64 v s \<and> step (ShlUInt64 u) s = shl_uint64 u s
       \<and> step (ShlBool b) s = shl_bool b s
       \<and> step (ShlGeneric (\<lambda>fmt. put fmt x)) s = shl_generic put x s
       \<and> shl_generic put x s = addToLastFailure (put \<lparr>precision = 16, floatfield = hexfloat\<rparr> x) s
       \<and> ((\<forall>fmt. put fmt x = put fresh_stream x) \<longrightarrow>
            shl_generic put x s = addToLastFailure (put fresh_stream x) s)
       \<and> digits_value (decimal n) = n"
proof -
  have a: "run ops s =
           Some (s\<lparr>failures_r := (failures_r s)
                    [t := (failures_r s ! t)
                       \<lparr>message_f := message_f (failures_r s ! t) @ concat (map shl_text ops)\<rparr>]\<rparr>)"
    using assms by (rule run_shl)
  have b: "shl_text (ShlInt64 v) =
           (if sint v < 0 then CHR ''-'' # decimal (nat (- sint v)) else decimal (nat (sint v)))"
    "shl_text (ShlUInt64 u) = decimal (unat u)"
    "shl_text (ShlBool b) = (if b then ''true'' else ''false'')"
    "shl_text (ShlGeneric (\<lambda>fmt. put fmt x)) = put \<lparr>precision = 16, floatfield = hexfloat\<rparr> x"
    by (simp_all add: to_string_int64_def to_string_uint64_def)
  have c: "step (ShlInt64 v) s = shl_int64 v s" "step (ShlUInt64 u) s = shl_uint64 u s"
    "step (ShlBool b) s = shl_bool b s"
    "step (ShlGeneric (\<lambda>fmt. put fmt x)) s = shl_generic put x s"
    by (simp_all add: shl_generic_def)
  have d: "shl_generic put x s = addToLastFailure (put \<lparr>precision = 16, floatfield = hexfloat\<rparr> x) s"
    by (simp add: shl_generic_def fresh_stream_def)
  have e: "shl_generic put x s = addToLastFailure (put fresh_stream x) s"
    if "\<forall>fmt. put fmt x = put fresh_stream x"
  proof -
    from that have "put \<lparr>precision = 16, floatfield = hexfloat\<rparr> x = put fresh_stream x" ..
    with d show ?thesis by simp
  qed
  from a b c d e decimal_value show ?thesis by blast
qed

lemma to_string_examples:
  "to_string_int64 (-12) = ''-12''" "to_string_uint64 7 = ''7''"
  by (simp_all add: to_string_int64_def to_string_uint64_def decimal.simps digit_char_def)

theorem shl_chain_appends_in_order_witness:
  "messageTarget_r failed_example = Some 2
   \<and> map_option (map message_f \<circ> failures_r)
        (run [ShlInt64 (-12), ShlUInt64 7, ShlBool False, ShlGeneric (\<lambda>fmt. put_three_halves fmt ())]
           failed_example) = Some [[], [], ''-127false0x1.8p+0'']
   \<and> shl_generic put_string ''abc'' failed_example = addToLastFailure ''abc'' failed_example"
proof -
  let ?ops = "[ShlInt64 (-12), ShlUInt64 7, ShlBool False, ShlGeneric (\<lambda>fmt. put_three_halves fmt ())]"
  have h: "messageTarget_r failed_example = Some 2" "2 < length (failures_r failed_example)"
    "list_all is_shl ?ops"
    by (simp_all add: failed_example_eq)
  have f: "map message_f ((failures_r failed_example)
             [2 := (failures_r failed_example ! 2)
                \<lparr>message_f := message_f (failures_r failed_example ! 2) @ concat (map shl_text ?ops)\<rparr>]) =
           [[], [], ''-127false0x1.8p+0'']"
    by (simp add: failed_example_eq to_string_examples put_three_halves_def)
  note r = shl_chain_appends_in_order [OF h, where put = put_string and x = "''abc''"]
  note r1 = r [THEN conjunct1]
  have a: "map_option (map message_f \<circ> failures_r) (run ?ops failed_example) =
       Some [[], [], ''-127false0x1.8p+0'']"
    unfolding r1 using f by simp
  have i: "\<forall>fmt. put_string fmt ''abc'' = put_string fresh_stream ''abc''"
    by (simp add: put_string_def)
  have "(\<forall>fmt. put_string fmt ''abc'' = put_string fresh_stream ''abc'') \<longrightarrow>
            shl_generic put_string ''abc'' failed_example =
              addToLastFailure (put_string fresh_stream ''abc'') failed_example"
    by (rule r [THEN conjunct2, THEN conjunct2, THEN conjunct2, THEN conjunct2, THEN conjunct2,
          THEN conjunct2, THEN conjunct2, THEN conjunct2, THEN conjunct2, THEN conjunct2,
          THEN conjunct1])
  from this i have "shl_generic put_string ''abc'' failed_example =
              addToLastFailure (put_string fresh_stream ''abc'') failed_example"
    by (rule mp)
  then have b: "shl_generic put_string ''abc'' failed_example = addToLastFailure ''abc'' failed_example"
    by (simp add: put_string_def)
  from h(1) a b show ?thesis by (simp only: simp_thms)
qed

text \<open>
  Claim C5 as stated fails for a floating-point value: 1.5 is appended in hexadecimal
  notation, not in the default rendering of a stream.
\<close>

theorem shl_generic_default_rendering_counterexample:
  "put_three_halves fresh_stream () = ''1.5''
   \<and> map_option (map message_f \<circ> failures_r) (shl_generic put_three_halves () failed_example) =
       Some [[], [], ''0x1.8p+0'']
   \<and> shl_generic put_three_halves () failed_example \<noteq>
       addToLastFailure (put_three_halves fresh_stream ()) failed_example"
  by (simp add: shl_generic_def addToLastFailure_def failed_example_eq put_three_halves_def
        fresh_stream_def)

subsection \<open>Runner\<close>

text \<open>
  Claim C8. A Runner without tests: \<open>runAllTest(true)\<close> writes the line
  \<open>All 0 tests passed\<close> and returns true.
\<close>

theorem runAllTest_no_tests:
  "runAllTest True \<lparr>tests_n = []\<rparr> out = Some (out @ ''All 0 tests passed'' @ [newline], True)
   \<and> testCount \<lparr>tests_n = []\<rparr> = 0"
  by (simp add: runAllTest_def testCount_def runAllTest_loop.simps decimal.simps digit_char_def)

end
